theory Spec2Isabelle
  imports Complex_Main "HOL-Library.Sublist"
begin

section \<open>Values, errors and tables\<close>

text \<open>
  The scripts \<^verbatim>\<open>scripts/04_entity_resolution.py\<close> and
  \<^verbatim>\<open>scripts/05_data_integration.py\<close> work on pandas tables whose cells
  hold text or the missing value (\<^verbatim>\<open>NaN\<close>/\<^verbatim>\<open>None\<close>, what
  \<^verbatim>\<open>pd.isna\<close> accepts). A cell is a \<open>string option\<close>, \<open>None\<close> being the
  missing value. A Python \<^verbatim>\<open>str\<close> is a sequence of code points; the model
  keeps the code points below 256, one \<open>char\<close> each.
\<close>

type_synonym cell = "string option"

datatype error = KeyError | AttributeError

text \<open>
  A \<^verbatim>\<open>DataFrame\<close>: its column labels and its rows in order. Each row is
  indexed by the column labels; \<^verbatim>\<open>row[col]\<close> raises \<^verbatim>\<open>KeyError\<close>
  for a label that is no column, \<^verbatim>\<open>row.get(col)\<close> gives \<^verbatim>\<open>None\<close>.
\<close>

record frame =
  columns :: "string list"
  rows :: "(string \<Rightarrow> cell) list"

definition getitem :: "string list \<Rightarrow> (string \<Rightarrow> cell) \<Rightarrow> string \<Rightarrow> error + cell" where
  "getitem cols row col = (if col \<in> set cols then Inr (row col) else Inl KeyError)"


text \<open>
  A Python \<^verbatim>\<open>dict\<close> keeps its keys in insertion order; assigning to a key
  that is present replaces the value where it stands.
\<close>

fun dict_set :: "'k \<Rightarrow> 'v \<Rightarrow> ('k \<times> 'v) list \<Rightarrow> ('k \<times> 'v) list" where
  "dict_set k v [] = [(k, v)]"
| "dict_set k v ((k', v') # m) =
     (if k' = k then (k, v) # m else (k', v') # dict_set k v m)"

section \<open>String operations of the Python library\<close>

text \<open>\<^verbatim>\<open>str.lower\<close>: the upper-case letters below 256 are A..Z and
  the range 192..222 without the multiplication sign 215.\<close>

definition lower_char :: "char \<Rightarrow> char" where
  "lower_char c =
     (let n = (of_char c :: nat)
      in if (65 \<le> n \<and> n \<le> 90) \<or> (192 \<le> n \<and> n \<le> 222 \<and> n \<noteq> 215)
         then char_of (n + 32) else c)"

definition str_lower :: "string \<Rightarrow> string" where
  "str_lower s = map lower_char s"

text \<open>\<^verbatim>\<open>str.isspace\<close> on one character (what \<^verbatim>\<open>split()\<close> and
  \<^verbatim>\<open>strip()\<close> treat as whitespace).\<close>

definition isspace :: "char \<Rightarrow> bool" where
  "isspace c =
     (let n = (of_char c :: nat)
      in (9 \<le> n \<and> n \<le> 13) \<or> (28 \<le> n \<and> n \<le> 32) \<or> n = 133 \<or> n = 160)"


text \<open>\<^verbatim>\<open>s.replace(old, new)\<close>: every non-overlapping occurrence, scanning
  from the left; an empty \<^verbatim>\<open>old\<close> matches before every character and at
  the end.\<close>

function str_replace :: "string \<Rightarrow> string \<Rightarrow> string \<Rightarrow> string" where
  "str_replace old new [] = (if old = [] then new else [])"
| "str_replace old new (c # cs) =
     (if old = [] then new @ c # str_replace old new cs
      else if prefix old (c # cs) then new @ str_replace old new (drop (length old) (c # cs))
      else c # str_replace old new cs)"
  by pat_completeness auto
termination
  by (relation "measure (\<lambda>(old, new, s). length s)") auto

text \<open>\<^verbatim>\<open>s.split()\<close>: the maximal runs of non-whitespace characters.\<close>

function str_split_ws :: "string \<Rightarrow> string list" where
  "str_split_ws [] = []"
| "str_split_ws (c # cs) =
     (if isspace c then str_split_ws cs
      else (c # takeWhile (\<lambda>x. \<not> isspace x) cs)
           # str_split_ws (dropWhile (\<lambda>x. \<not> isspace x) cs))"
  by pat_completeness auto
termination
  by (relation "measure length") (auto simp: length_dropWhile_le less_Suc_eq_le)

text \<open>\<^verbatim>\<open>sep.join(words)\<close>.\<close>

fun str_join :: "string \<Rightarrow> string list \<Rightarrow> string" where
  "str_join sep [] = []"
| "str_join sep [w] = w"
| "str_join sep (w # ws) = w @ sep @ str_join sep ws"

text \<open>\<^verbatim>\<open>s.split(sep)\<close> for a one-character separator: never an empty list.\<close>

fun str_split :: "char \<Rightarrow> string \<Rightarrow> string list" where
  "str_split sep [] = [[]]"
| "str_split sep (c # cs) =
     (if c = sep then [] # str_split sep cs
      else (case str_split sep cs of
              [] \<Rightarrow> [[c]]
            | w # ws \<Rightarrow> (c # w) # ws))"

text \<open>\<^verbatim>\<open>s.strip()\<close>.\<close>

definition str_strip :: "string \<Rightarrow> string" where
  "str_strip s = rev (dropWhile isspace (rev (dropWhile isspace s)))"

text \<open>\<^verbatim>\<open>sub in s\<close> on strings.\<close>

fun str_contains :: "string \<Rightarrow> string \<Rightarrow> bool" where
  "str_contains sub [] = (sub = [])"
| "str_contains sub (c # cs) = (prefix sub (c # cs) \<or> str_contains sub cs)"


section \<open>Entity resolution (scripts/04\_entity\_resolution.py)\<close>

subsection \<open>normalize\_name\<close>

fun normalize_name :: "cell \<Rightarrow> string" where
  "normalize_name None = []"
| "normalize_name (Some name) =
     (let name = str_lower name;
          name = str_replace '' inc'' [] (str_replace '' llc'' [] (str_replace '' ltd'' [] name));
          name = str_replace '' capital'' []
                   (str_replace '' agro'' [] (str_replace '' solutions'' [] name));
          name = str_replace ''-'' '' '' (str_replace '','' [] (str_replace ''.'' [] name))
      in str_join '' '' (str_split_ws name))"

text \<open>The tokens that \<open>normalize_name\<close> deletes, in the order of its calls.\<close>

definition suffix_tokens :: "string list" where
  "suffix_tokens = ['' ltd'', '' llc'', '' inc'', '' solutions'', '' agro'', '' capital'']"

subsection \<open>build\_entity\_mapping\<close>

text \<open>
  The value stored for one identifier. \<^verbatim>\<open>names\<close> starts with the cell of
  the name column, so its elements are cells; \<^verbatim>\<open>list(set(xs))\<close> lists
  each element of \<open>xs\<close> once in an order Python leaves open: the model lists them by
  first occurrence, and the theorems speak of the set of the elements only.
\<close>

record entity =
  canonical_name :: cell
  alternate_names :: "cell list"
  normalized_variants :: "string list"

text \<open>The entity map is keyed by the cell of the identifier column; the missing value
  is one key.\<close>

type_synonym entity_map = "(cell \<times> entity) list"

definition parse_alternates :: "string \<Rightarrow> string list" where
  "parse_alternates field =
     (let alternates = str_split CHR '';'' field
      in map str_strip (filter (\<lambda>alt. str_strip alt \<noteq> []) alternates))"

definition row_entity :: "string list \<Rightarrow> string option \<Rightarrow> (string \<Rightarrow> cell) \<Rightarrow> cell \<Rightarrow> entity" where
  "row_entity cols alt_names_col row cname =
     (let names = [cname];
          names =
            (case alt_names_col of
               None \<Rightarrow> names
             | Some alt \<Rightarrow>
                 if alt \<noteq> [] \<and> alt \<in> set cols
                 then (case row alt of
                         None \<Rightarrow> names
                       | Some field \<Rightarrow> names @ map Some (parse_alternates field))
                 else names);
          normalized_names = map normalize_name names
      in \<lparr>canonical_name = cname,
          alternate_names = (if length names > 1 then tl names else []),
          normalized_variants = remdups normalized_names\<rparr>)"

definition build_row ::
  "string list \<Rightarrow> string \<Rightarrow> string \<Rightarrow> string option \<Rightarrow> (string \<Rightarrow> cell) \<Rightarrow> entity_map
     \<Rightarrow> error + entity_map" where
  "build_row cols id_col name_col alt_names_col row entity_map =
     (case getitem cols row id_col of
        Inl e \<Rightarrow> Inl e
      | Inr entity_id \<Rightarrow>
     (case getitem cols row name_col of
        Inl e \<Rightarrow> Inl e
      | Inr cname \<Rightarrow>
          Inr (dict_set entity_id (row_entity cols alt_names_col row cname) entity_map)))"

fun build_loop ::
  "string list \<Rightarrow> string \<Rightarrow> string \<Rightarrow> string option \<Rightarrow> (string \<Rightarrow> cell) list \<Rightarrow> entity_map
     \<Rightarrow> error + entity_map" where
  "build_loop cols id_col name_col alt_names_col [] entity_map = Inr entity_map"
| "build_loop cols id_col name_col alt_names_col (row # rest) entity_map =
     (case build_row cols id_col name_col alt_names_col row entity_map of
        Inl e \<Rightarrow> Inl e
      | Inr entity_map' \<Rightarrow> build_loop cols id_col name_col alt_names_col rest entity_map')"

definition build_entity_mapping ::
  "frame \<Rightarrow> string \<Rightarrow> string \<Rightarrow> string option \<Rightarrow> error + entity_map" where
  "build_entity_mapping df id_col name_col alt_names_col =
     build_loop (columns df) id_col name_col alt_names_col (rows df) []"

subsection \<open>find\_similar\_entities\<close>

text \<open>
  \<^verbatim>\<open>fuzz.ratio\<close> belongs to the rapidfuzz library; the detector takes it
  as the parameter \<open>ratio\<close>. Only comparisons are made on its results.
\<close>

record candidate =
  id1 :: cell
  entity1 :: cell
  id2 :: cell
  entity2 :: cell
  similarity :: real
  matched_variants :: "(string \<times> string) option"

fun names2_loop ::
  "(string \<Rightarrow> string \<Rightarrow> real) \<Rightarrow> string \<Rightarrow> string list
     \<Rightarrow> real \<times> (string \<times> string) option \<Rightarrow> real \<times> (string \<times> string) option" where
  "names2_loop ratio name1 [] best = best"
| "names2_loop ratio name1 (name2 # rest) (max_similarity, best_match) =
     (let similarity = ratio name1 name2
      in if similarity > max_similarity
         then names2_loop ratio name1 rest (similarity, Some (name1, name2))
         else names2_loop ratio name1 rest (max_similarity, best_match))"

fun names1_loop ::
  "(string \<Rightarrow> string \<Rightarrow> real) \<Rightarrow> string list \<Rightarrow> string list
     \<Rightarrow> real \<times> (string \<times> string) option \<Rightarrow> real \<times> (string \<times> string) option" where
  "names1_loop ratio [] names2 best = best"
| "names1_loop ratio (name1 # rest) names2 best =
     names1_loop ratio rest names2 (names2_loop ratio name1 names2 best)"

fun id2_loop ::
  "(string \<Rightarrow> string \<Rightarrow> real) \<Rightarrow> entity_map \<Rightarrow> real \<Rightarrow> cell \<Rightarrow> cell list \<Rightarrow> candidate list
     \<Rightarrow> error + candidate list" where
  "id2_loop ratio entity_map threshold i1 [] potential_duplicates = Inr potential_duplicates"
| "id2_loop ratio entity_map threshold i1 (i2 # rest) potential_duplicates =
     (case map_of entity_map i1 of
        None \<Rightarrow> Inl KeyError
      | Some e1 \<Rightarrow>
     (case map_of entity_map i2 of
        None \<Rightarrow> Inl KeyError
      | Some e2 \<Rightarrow>
          (case names1_loop ratio (normalized_variants e1) (normalized_variants e2) (0, None) of
             (max_similarity, best_match) \<Rightarrow>
               id2_loop ratio entity_map threshold i1 rest
                 (if max_similarity \<ge> threshold
                  then potential_duplicates @
                         [\<lparr>id1 = i1, entity1 = canonical_name e1,
                           id2 = i2, entity2 = canonical_name e2,
                           similarity = max_similarity, matched_variants = best_match\<rparr>]
                  else potential_duplicates))))"

fun id1_loop ::
  "(string \<Rightarrow> string \<Rightarrow> real) \<Rightarrow> entity_map \<Rightarrow> real \<Rightarrow> cell list \<Rightarrow> candidate list
     \<Rightarrow> error + candidate list" where
  "id1_loop ratio entity_map threshold [] potential_duplicates = Inr potential_duplicates"
| "id1_loop ratio entity_map threshold (i1 # rest) potential_duplicates =
     (case id2_loop ratio entity_map threshold i1 rest potential_duplicates of
        Inl e \<Rightarrow> Inl e
      | Inr potential_duplicates' \<Rightarrow>
          id1_loop ratio entity_map threshold rest potential_duplicates')"

definition find_similar_entities ::
  "(string \<Rightarrow> string \<Rightarrow> real) \<Rightarrow> entity_map \<Rightarrow> real \<Rightarrow> error + candidate list" where
  "find_similar_entities ratio entity_map threshold =
     id1_loop ratio entity_map threshold (map fst entity_map) []"

subsection \<open>create\_reverse\_lookup\<close>

fun variants_loop :: "cell \<Rightarrow> string list \<Rightarrow> (string \<times> cell) list \<Rightarrow> (string \<times> cell) list" where
  "variants_loop entity_id [] reverse_map = reverse_map"
| "variants_loop entity_id (variant # rest) reverse_map =
     variants_loop entity_id rest
       (if variant \<noteq> [] then dict_set variant entity_id reverse_map else reverse_map)"

fun reverse_loop :: "entity_map \<Rightarrow> (string \<times> cell) list \<Rightarrow> (string \<times> cell) list" where
  "reverse_loop [] reverse_map = reverse_map"
| "reverse_loop ((entity_id, data) # rest) reverse_map =
     (let canonical_norm = normalize_name (canonical_name data);
          reverse_map = dict_set canonical_norm entity_id reverse_map
      in reverse_loop rest (variants_loop entity_id (normalized_variants data) reverse_map))"

definition create_reverse_lookup :: "entity_map \<Rightarrow> (string \<times> cell) list" where
  "create_reverse_lookup entity_map = reverse_loop entity_map []"

subsection \<open>find\_entity\_in\_text\<close>

text \<open>Calling \<^verbatim>\<open>.lower()\<close> on a missing value raises
  \<^verbatim>\<open>AttributeError\<close>.\<close>

record mention =
  entity_id :: cell
  entity_name :: cell
  matched_text :: cell




section \<open>Data integration (scripts/05\_data\_integration.py)\<close>















section \<open>Auxiliary definitions for the statements\<close>

subsection \<open>The stages of normalize\_name\<close>

text \<open>The two groups of \<^verbatim>\<open>replace\<close> calls of \<open>normalize_name\<close>, named after
  the comments of the source.\<close>

definition remove_suffixes :: "string \<Rightarrow> string" where
  "remove_suffixes name =
     str_replace '' capital'' []
       (str_replace '' agro'' [] (str_replace '' solutions'' []
         (str_replace '' inc'' [] (str_replace '' llc'' [] (str_replace '' ltd'' [] name)))))"

definition remove_punctuation :: "string \<Rightarrow> string" where
  "remove_punctuation name =
     str_replace ''-'' '' '' (str_replace '','' [] (str_replace ''.'' [] name))"

subsection \<open>The normalizer in the words of the specification\<close>

text \<open>
  The specification gives the order of operations as: lower-case; strip a fixed list of
  organizational suffixes occurring at the end of the name, longest match first; treat
  the punctuation; collapse consecutive whitespace; trim. \<open>spec_normalize\<close> follows
  these words, with the code's list of tokens and with the treatment of a punctuation
  character as a parameter: the specification replaces each period, comma and hyphen by
  a space (\<open>punct_as_space\<close>), the code deletes periods and commas and replaces hyphens
  by a space (\<open>punct_removed\<close>).
\<close>

definition suffixes_longest_first :: "string list" where
  "suffixes_longest_first =
     ['' solutions'', '' capital'', '' agro'', '' ltd'', '' llc'', '' inc'']"

definition strip_suffix_spec :: "string \<Rightarrow> string" where
  "strip_suffix_spec name =
     (case find (\<lambda>tok. suffix tok name) suffixes_longest_first of
        None \<Rightarrow> name
      | Some tok \<Rightarrow> take (length name - length tok) name)"

function collapse_ws :: "string \<Rightarrow> string" where
  "collapse_ws [] = []"
| "collapse_ws (c # cs) =
     (if isspace c then CHR '' '' # collapse_ws (dropWhile isspace cs)
      else c # collapse_ws cs)"
  by pat_completeness auto
termination
  by (relation "measure length") (auto simp: length_dropWhile_le less_Suc_eq_le)

definition punct_as_space :: "char \<Rightarrow> string" where
  "punct_as_space c =
     (if c = CHR ''.'' \<or> c = CHR '','' \<or> c = CHR ''-'' then '' '' else [c])"

definition punct_removed :: "char \<Rightarrow> string" where
  "punct_removed c =
     (if c = CHR ''.'' \<or> c = CHR '','' then [] else if c = CHR ''-'' then '' '' else [c])"

definition spec_normalize :: "(char \<Rightarrow> string) \<Rightarrow> string \<Rightarrow> string" where
  "spec_normalize punct name =
     str_strip (collapse_ws (concat (map punct (strip_suffix_spec (str_lower name)))))"

text \<open>Every place of \<open>s\<close> where \<open>tok\<close> matches is the last one: \<open>tok\<close> occurs in
  \<open>s\<close> at its end or not at all.\<close>

fun occurs_only_at_end :: "string \<Rightarrow> string \<Rightarrow> bool" where
  "occurs_only_at_end tok [] = True"
| "occurs_only_at_end tok (c # cs) =
     ((prefix tok (c # cs) \<longrightarrow> length tok = Suc (length cs)) \<and> occurs_only_at_end tok cs)"

subsection \<open>Keys written by create\_reverse\_lookup\<close>

text \<open>The keys that the loop body of \<open>create_reverse_lookup\<close> assigns for one entity:
  its normalized canonical name, whatever it is, and its non-empty variants.\<close>

definition writes_key :: "entity \<Rightarrow> string \<Rightarrow> bool" where
  "writes_key data k \<longleftrightarrow>
     normalize_name (canonical_name data) = k
     \<or> (k \<noteq> [] \<and> k \<in> set (normalized_variants data))"

subsection \<open>The alternate names of a record, in the words of the specification\<close>


subsection \<open>The mention of one entity, in the words of the specification\<close>



subsection \<open>The candidates of find\_similar\_entities before the threshold\<close>

text \<open>The record that the loop body of \<open>find_similar_entities\<close> would append for the
  identifiers \<open>i1\<close> and \<open>i2\<close>, and the list of these records for all pairs in the
  order of the loops. They serve to state which candidates a threshold keeps.\<close>

definition pair_candidate ::
  "(string \<Rightarrow> string \<Rightarrow> real) \<Rightarrow> entity_map \<Rightarrow> cell \<Rightarrow> cell \<Rightarrow> candidate" where
  "pair_candidate ratio em i1 i2 =
     (let e1 = the (map_of em i1); e2 = the (map_of em i2);
          best = names1_loop ratio (normalized_variants e1) (normalized_variants e2) (0, None)
      in \<lparr>id1 = i1, entity1 = canonical_name e1, id2 = i2, entity2 = canonical_name e2,
          similarity = fst best, matched_variants = snd best\<rparr>)"

fun all_pairs ::
  "(string \<Rightarrow> string \<Rightarrow> real) \<Rightarrow> entity_map \<Rightarrow> cell list \<Rightarrow> candidate list" where
  "all_pairs ratio em [] = []"
| "all_pairs ratio em (i1 # rest) = map (pair_candidate ratio em i1) rest @ all_pairs ratio em rest"

subsection \<open>The generated edges, in the words of the specification\<close>



section \<open>Facts about the string operations\<close>


lemma isspace_space: "isspace CHR '' ''"
  by (simp add: isspace_def)

lemma str_replace_absent: "\<not> str_contains old s \<Longrightarrow> str_replace old new s = s"
  by (induction s) auto

lemma str_contains_single: "str_contains [c] s \<longleftrightarrow> c \<in> set s"
  by (induction s) auto

lemma str_replace_single:
  "str_replace [c] new s = concat (map (\<lambda>x. if x = c then new else [x]) s)"
proof (induction s)
  case Nil
  show ?case by simp
next
  case (Cons x xs)
  show ?case
  proof (cases "x = c")
    case True
    with Cons show ?thesis by simp
  next
    case False
    then have "c \<noteq> x" by blast
    with Cons False show ?thesis by simp
  qed
qed

lemma set_str_replace: "old \<noteq> [] \<Longrightarrow> set (str_replace old new s) \<subseteq> set s \<union> set new"
proof (induction old new s rule: str_replace.induct)
  case (1 old new)
  then show ?case by simp
next
  case (2 old new c cs)
  show ?case
  proof (cases "prefix old (c # cs)")
    case True
    have "set (drop (length old) (c # cs)) \<subseteq> set (c # cs)" by (rule set_drop_subset)
    with 2 True show ?thesis by (simp del: drop_Suc_Cons) blast
  next
    case False
    with 2 show ?thesis by (simp del: drop_Suc_Cons) blast
  qed
qed

lemma set_str_delete: "c \<in> set (str_replace (x # xs) [] s) \<Longrightarrow> c \<in> set s"
  using set_str_replace [of "x # xs" "[]" s] by auto

lemma of_char_lower_char:
  "of_char (lower_char c) =
     (let n = (of_char c :: nat)
      in if (65 \<le> n \<and> n \<le> 90) \<or> (192 \<le> n \<and> n \<le> 222 \<and> n \<noteq> 215) then n + 32 else n)"
  by (simp add: lower_char_def Let_def)

lemma lower_char_idem: "lower_char (lower_char c) = lower_char c"
  unfolding lower_char_def[of "lower_char c"] of_char_lower_char
  by (auto simp: Let_def)

lemma split_ws_word:
  "w \<in> set (str_split_ws s) \<Longrightarrow> w \<noteq> [] \<and> (\<forall>c\<in>set w. \<not> isspace c)"
proof (induction s rule: str_split_ws.induct)
  case 1
  then show ?case by simp
next
  case (2 c cs)
  show ?case
  proof (cases "isspace c")
    case True
    with 2 show ?thesis by simp
  next
    case False
    from 2(3) False have "w = c # takeWhile (\<lambda>x. \<not> isspace x) cs
        \<or> w \<in> set (str_split_ws (dropWhile (\<lambda>x. \<not> isspace x) cs))"
      by simp
    then show ?thesis
    proof
      assume w: "w = c # takeWhile (\<lambda>x. \<not> isspace x) cs"
      have "\<forall>x\<in>set (takeWhile (\<lambda>x. \<not> isspace x) cs). \<not> isspace x"
        using set_takeWhileD by fastforce
      with w False show ?thesis by simp
    next
      assume "w \<in> set (str_split_ws (dropWhile (\<lambda>x. \<not> isspace x) cs))"
      with 2(2) False show ?thesis by blast
    qed
  qed
qed

lemma split_ws_subset: "w \<in> set (str_split_ws s) \<Longrightarrow> set w \<subseteq> set s"
proof (induction s rule: str_split_ws.induct)
  case 1
  then show ?case by simp
next
  case (2 c cs)
  show ?case
  proof (cases "isspace c")
    case True
    with 2 show ?thesis by auto
  next
    case False
    from 2(3) False have "w = c # takeWhile (\<lambda>x. \<not> isspace x) cs
        \<or> w \<in> set (str_split_ws (dropWhile (\<lambda>x. \<not> isspace x) cs))"
      by simp
    then show ?thesis
    proof
      assume w: "w = c # takeWhile (\<lambda>x. \<not> isspace x) cs"
      have "set (takeWhile (\<lambda>x. \<not> isspace x) cs) \<subseteq> set cs"
        using set_takeWhileD by fastforce
      with w show ?thesis by auto
    next
      assume "w \<in> set (str_split_ws (dropWhile (\<lambda>x. \<not> isspace x) cs))"
      with 2(2) False have "set w \<subseteq> set (dropWhile (\<lambda>x. \<not> isspace x) cs)" by blast
      moreover have "set (dropWhile (\<lambda>x. \<not> isspace x) cs) \<subseteq> set cs"
        using set_dropWhileD by fastforce
      ultimately show ?thesis by auto
    qed
  qed
qed

lemma split_ws_single:
  assumes "w \<noteq> []" and "\<forall>c\<in>set w. \<not> isspace c"
  shows "str_split_ws w = [w]"
proof -
  from assms obtain c cs where w: "w = c # cs" by (cases w) auto
  with assms have c: "\<not> isspace c" and cs: "\<forall>x\<in>set cs. \<not> isspace x" by auto
  from cs have t: "takeWhile (\<lambda>x. \<not> isspace x) cs = cs" by (simp add: takeWhile_eq_all_conv)
  from cs have d: "dropWhile (\<lambda>x. \<not> isspace x) cs = []" by (simp add: dropWhile_eq_Nil_conv)
  show ?thesis using w c by (simp add: t d)
qed

lemma split_ws_word_space:
  assumes "w \<noteq> []" and "\<forall>c\<in>set w. \<not> isspace c"
  shows "str_split_ws (w @ CHR '' '' # r) = w # str_split_ws r"
proof -
  from assms obtain c cs where w: "w = c # cs" by (cases w) auto
  with assms have c: "\<not> isspace c" and cs: "\<forall>x\<in>set cs. \<not> isspace x" by auto
  from cs have t: "takeWhile (\<lambda>x. \<not> isspace x) (cs @ CHR '' '' # r) = cs"
    by (simp add: takeWhile_append2 isspace_space)
  from cs have d: "dropWhile (\<lambda>x. \<not> isspace x) (cs @ CHR '' '' # r) = CHR '' '' # r"
    by (simp add: dropWhile_append2 isspace_space)
  have "str_split_ws (w @ CHR '' '' # r)
      = (c # takeWhile (\<lambda>x. \<not> isspace x) (cs @ CHR '' '' # r))
        # str_split_ws (dropWhile (\<lambda>x. \<not> isspace x) (cs @ CHR '' '' # r))"
    using w c by simp
  also have "\<dots> = w # str_split_ws (CHR '' '' # r)" using t d w by simp
  also have "\<dots> = w # str_split_ws r" by (simp add: isspace_space)
  finally show ?thesis .
qed

lemma split_ws_join:
  "\<forall>w\<in>set ws. w \<noteq> [] \<and> (\<forall>c\<in>set w. \<not> isspace c)
     \<Longrightarrow> str_split_ws (str_join '' '' ws) = ws"
proof (induction "'' ''" ws rule: str_join.induct)
  case 1
  show ?case by simp
next
  case (2 w)
  then show ?case by (simp add: split_ws_single)
next
  case (3 w v vs)
  then have "str_split_ws (str_join '' '' (v # vs)) = v # vs" by simp
  moreover have "str_split_ws (w @ CHR '' '' # str_join '' '' (v # vs))
      = w # str_split_ws (str_join '' '' (v # vs))"
    using 3(2) by (intro split_ws_word_space) auto
  ultimately show ?case by simp
qed

lemma str_lower_fixed: "c \<in> set (str_lower s) \<Longrightarrow> lower_char c = c"
  by (auto simp: str_lower_def lower_char_idem)

lemma lower_char_space: "lower_char CHR '' '' = CHR '' ''"
  by (simp add: lower_char_def)

lemma set_str_join: "set (str_join sep ws) \<subseteq> set sep \<union> \<Union> (set ` set ws)"
  by (induction sep ws rule: str_join.induct) auto


lemma normalize_name_chars:
  assumes "c \<in> set (normalize_name (Some s))"
  shows "lower_char c = c \<and> c \<noteq> CHR ''.'' \<and> c \<noteq> CHR '','' \<and> c \<noteq> CHR ''-''"
proof (cases "c = CHR '' ''")
  case True
  then show ?thesis by (simp add: lower_char_space)
next
  case False
  define n1 where "n1 = str_lower s"
  define n3 where "n3 = str_replace '' capital'' []
      (str_replace '' agro'' [] (str_replace '' solutions'' []
        (str_replace '' inc'' [] (str_replace '' llc'' [] (str_replace '' ltd'' [] n1)))))"
  define n4 where "n4 = str_replace ''-'' '' '' (str_replace '','' [] (str_replace ''.'' [] n3))"
  have N: "normalize_name (Some s) = str_join '' '' (str_split_ws n4)"
    by (simp add: n4_def n3_def n1_def)
  from assms False have "c \<in> \<Union> (set ` set (str_split_ws n4))"
    using set_str_join [of "'' ''" "str_split_ws n4"] unfolding N by auto
  then have c4: "c \<in> set n4" using split_ws_subset by fastforce
  have n4': "n4 = concat (map (\<lambda>x. if x = CHR ''-'' then '' '' else [x])
      (concat (map (\<lambda>x. if x = CHR '','' then [] else [x])
        (concat (map (\<lambda>x. if x = CHR ''.'' then [] else [x]) n3)))))"
    unfolding n4_def str_replace_single ..
  from c4 False have c3: "c \<in> set n3 \<and> c \<noteq> CHR ''.'' \<and> c \<noteq> CHR '','' \<and> c \<noteq> CHR ''-''"
    unfolding n4' by (auto split: if_splits)
  then have "c \<in> set n1"
    unfolding n3_def by (blast dest: set_str_delete)
  then have "lower_char c = c" unfolding n1_def by (rule str_lower_fixed)
  with c3 show ?thesis by simp
qed




lemma str_lower_id: "\<forall>c\<in>set s. lower_char c = c \<Longrightarrow> str_lower s = s"
  by (simp add: str_lower_def map_idI)

lemma tokens_absent:
  assumes "\<forall>tok\<in>set suffix_tokens. \<not> str_contains tok s"
  shows "str_replace '' capital'' []
      (str_replace '' agro'' [] (str_replace '' solutions'' []
        (str_replace '' inc'' [] (str_replace '' llc'' [] (str_replace '' ltd'' [] s))))) = s"
proof -
  from assms have "str_replace '' ltd'' [] s = s" "str_replace '' llc'' [] s = s"
    "str_replace '' inc'' [] s = s" "str_replace '' solutions'' [] s = s"
    "str_replace '' agro'' [] s = s" "str_replace '' capital'' [] s = s"
    by (simp_all add: suffix_tokens_def str_replace_absent)
  then show ?thesis by simp
qed



lemma normalize_name_stages:
  "normalize_name (Some s) =
     str_join '' '' (str_split_ws (remove_punctuation (remove_suffixes (str_lower s))))"
  by (simp add: remove_punctuation_def remove_suffixes_def)


section \<open>Claims about normalize\_name\<close>

text \<open>
  Claim C1, as amended. The claim as stated says that \<open>normalize_name\<close> is idempotent
  on every string. The suffix tokens are deleted from the lower-cased input before the
  hyphens become spaces and the whitespace is collapsed, so the result may hold a token
  that a second call deletes: \<^verbatim>\<open>a-ltd\<close> gives \<^verbatim>\<open>a ltd\<close>, which gives
  \<^verbatim>\<open>a\<close>. What holds: whenever the normalized form of \<open>s\<close> contains none of the
  suffix tokens, normalizing it again returns it unchanged.
\<close>

theorem normalize_name_idempotent_without_tokens:
  assumes "\<forall>tok\<in>set suffix_tokens. \<not> str_contains tok (normalize_name (Some s))"
  shows "normalize_name (Some (normalize_name (Some s))) = normalize_name (Some s)"
proof -
  define N where "N = normalize_name (Some s)"
  define ws where "ws = str_split_ws (remove_punctuation (remove_suffixes (str_lower s)))"
  have N: "N = str_join '' '' ws"
    unfolding N_def ws_def by (rule normalize_name_stages)
  have chars: "\<forall>c\<in>set N. lower_char c = c \<and> c \<noteq> CHR ''.'' \<and> c \<noteq> CHR '','' \<and> c \<noteq> CHR ''-''"
    unfolding N_def using normalize_name_chars by blast
  have l: "str_lower N = N" using chars by (intro str_lower_id) blast
  have t: "remove_suffixes N = N"
    unfolding remove_suffixes_def using assms unfolding N_def by (rule tokens_absent)
  have no: "CHR ''.'' \<notin> set N" "CHR '','' \<notin> set N" "CHR ''-'' \<notin> set N"
    using chars by blast+
  have p1: "str_replace ''.'' [] N = N"
    by (rule str_replace_absent) (simp add: str_contains_single no)
  have p2: "str_replace '','' [] N = N"
    by (rule str_replace_absent) (simp add: str_contains_single no)
  have p3: "str_replace ''-'' '' '' N = N"
    by (rule str_replace_absent) (simp add: str_contains_single no)
  have p: "remove_punctuation N = N"
    unfolding remove_punctuation_def by (simp only: p1 p2 p3)
  have words: "\<forall>w\<in>set ws. w \<noteq> [] \<and> (\<forall>c\<in>set w. \<not> isspace c)"
    unfolding ws_def using split_ws_word by blast
  have w: "str_split_ws N = ws"
    unfolding N using words by (rule split_ws_join)
  have "normalize_name (Some N)
      = str_join '' '' (str_split_ws (remove_punctuation (remove_suffixes (str_lower N))))"
    by (rule normalize_name_stages)
  also have "\<dots> = str_join '' '' ws" by (simp only: l t p w)
  also have "\<dots> = N" by (simp only: N [symmetric])
  finally show ?thesis unfolding N_def .
qed

text \<open>The hypothesis holds at \<^verbatim>\<open>VerdeNova Solutions, Ltd.\<close>.\<close>

theorem normalize_name_idempotent_witness:
  "normalize_name (Some (normalize_name (Some ''VerdeNova Solutions, Ltd.'')))
     = normalize_name (Some ''VerdeNova Solutions, Ltd.'')
   \<and> normalize_name (Some ''VerdeNova Solutions, Ltd.'') = ''verdenova''"
proof -
  have h: "\<forall>tok\<in>set suffix_tokens.
      \<not> str_contains tok (normalize_name (Some ''VerdeNova Solutions, Ltd.''))"
    by code_simp
  have "normalize_name (Some ''VerdeNova Solutions, Ltd.'') = ''verdenova''"
    by code_simp
  with normalize_name_idempotent_without_tokens [OF h] show ?thesis by simp
qed

text \<open>The claim as stated fails at \<^verbatim>\<open>a-ltd\<close>.\<close>

theorem normalize_name_idempotent_counterexample:
  "normalize_name (Some (normalize_name (Some ''a-ltd''))) \<noteq> normalize_name (Some ''a-ltd'')"
  by code_simp


subsection \<open>Deleting the suffix tokens\<close>

lemma str_replace_only_at_end:
  "occurs_only_at_end tok u \<Longrightarrow> tok \<noteq> [] \<Longrightarrow>
     str_replace tok [] u = (if suffix tok u then take (length u - length tok) u else u)"
proof (induction u)
  case Nil
  then show ?case by simp
next
  case (Cons c cs)
  show ?case
  proof (cases "prefix tok (c # cs)")
    case True
    with Cons.prems have len: "length tok = Suc (length cs)" by simp
    from True obtain zs where zs: "c # cs = tok @ zs" by (auto simp: prefix_def)
    then have "length (c # cs) = length tok + length zs" by (metis length_append)
    with len have "zs = []" by simp
    with zs have eq: "tok = c # cs" by simp
    then show ?thesis using Cons.prems(2) by simp
  next
    case False
    then have ne: "tok \<noteq> c # cs" by auto
    from Cons.prems have oe: "occurs_only_at_end tok cs" by simp
    have IH: "str_replace tok [] cs = (if suffix tok cs then take (length cs - length tok) cs else cs)"
      using Cons.IH [OF oe Cons.prems(2)] .
    have sfx: "suffix tok (c # cs) \<longleftrightarrow> suffix tok cs"
      using ne by (simp add: suffix_Cons)
    have r: "str_replace tok [] (c # cs) = c # str_replace tok [] cs"
      using False Cons.prems(2) by simp
    show ?thesis
    proof (cases "suffix tok cs")
      case True
      then have "length tok \<le> length cs" by (rule suffix_length_le)
      then have "take (length (c # cs) - length tok) (c # cs) = c # take (length cs - length tok) cs"
        by (simp add: Suc_diff_le)
      with True r IH sfx show ?thesis by simp
    next
      case False
      with r IH sfx show ?thesis by simp
    qed
  qed
qed

lemma only_at_end_prefix:
  "occurs_only_at_end t (p @ q) \<Longrightarrow> q \<noteq> [] \<Longrightarrow> \<not> str_contains t p"
proof (induction p)
  case Nil
  then show ?case by (cases q) auto
next
  case (Cons c cs)
  from Cons.prems have a: "prefix t (c # cs @ q) \<longrightarrow> length t = Suc (length cs + length q)"
    and b: "occurs_only_at_end t (cs @ q)" by simp_all
  have "\<not> prefix t (c # cs)"
  proof
    assume p: "prefix t (c # cs)"
    then have "prefix t (c # cs @ q)" by (metis append_Cons prefix_prefix)
    with a have "length t = Suc (length cs + length q)" by blast
    moreover from p have "length t \<le> Suc (length cs)" using prefix_length_le by fastforce
    ultimately show False using Cons.prems(2) by simp
  qed
  moreover have "\<not> str_contains t cs" using Cons.IH [OF b Cons.prems(2)] .
  ultimately show ?case by simp
qed

lemma delete_all_absent:
  "\<forall>t\<in>set toks. \<not> str_contains t x \<Longrightarrow> foldl (\<lambda>a t. str_replace t [] a) x toks = x"
proof (induction toks)
  case Nil
  show ?case by simp
next
  case (Cons t ts)
  then have "str_replace t [] x = x" by (intro str_replace_absent) simp
  moreover from Cons have "foldl (\<lambda>a t. str_replace t [] a) x ts = x" by simp
  ultimately show ?case by simp
qed

lemma delete_all_unique_suffix:
  assumes "\<forall>t\<in>set toks. t \<noteq> [] \<and> occurs_only_at_end t u"
    and "t0 \<in> set toks" and "suffix t0 u"
    and "\<forall>t\<in>set toks. t \<noteq> t0 \<longrightarrow> \<not> suffix t u"
  shows "foldl (\<lambda>a t. str_replace t [] a) u toks = take (length u - length t0) u"
  using assms
proof (induction toks)
  case Nil
  then show ?case by simp
next
  case (Cons t ts)
  define p where "p = take (length u - length t0) u"
  from Cons.prems(3) have u: "u = p @ t0"
    unfolding p_def by (auto simp: suffix_def)
  from Cons.prems(1,2) have t0: "t0 \<noteq> []" by auto
  have absent: "\<forall>t'\<in>set ts. \<not> str_contains t' p"
  proof
    fix t' assume "t' \<in> set ts"
    with Cons.prems(1) have "occurs_only_at_end t' (p @ t0)" using u by auto
    then show "\<not> str_contains t' p" using t0 by (rule only_at_end_prefix)
  qed
  show ?case
  proof (cases "t = t0")
    case True
    from Cons.prems(1) have "occurs_only_at_end t u" "t \<noteq> []" by auto
    then have "str_replace t [] u = p"
      using Cons.prems(3) True unfolding p_def by (simp add: str_replace_only_at_end)
    then show ?thesis using delete_all_absent [OF absent] unfolding p_def by simp
  next
    case False
    from Cons.prems(1) have "occurs_only_at_end t u" "t \<noteq> []" by auto
    moreover from Cons.prems(4) False have "\<not> suffix t u" by simp
    ultimately have "str_replace t [] u = u" by (simp add: str_replace_only_at_end)
    moreover have "foldl (\<lambda>a t. str_replace t [] a) u ts = take (length u - length t0) u"
      using Cons.prems False by (intro Cons.IH) auto
    ultimately show ?thesis by simp
  qed
qed

lemma delete_all_no_suffix:
  assumes "\<forall>t\<in>set toks. t \<noteq> [] \<and> occurs_only_at_end t u"
    and "\<forall>t\<in>set toks. \<not> suffix t u"
  shows "foldl (\<lambda>a t. str_replace t [] a) u toks = u"
  using assms
proof (induction toks)
  case Nil
  show ?case by simp
next
  case (Cons t ts)
  from Cons.prems have "occurs_only_at_end t u" "t \<noteq> []" "\<not> suffix t u" by simp_all
  then have "str_replace t [] u = u" by (simp add: str_replace_only_at_end)
  moreover from Cons have "foldl (\<lambda>a t. str_replace t [] a) u ts = u" by simp
  ultimately show ?case by simp
qed

lemma remove_suffixes_foldl:
  "remove_suffixes u = foldl (\<lambda>a t. str_replace t [] a) u suffix_tokens"
  by (simp add: remove_suffixes_def suffix_tokens_def)

lemma suffix_tokens_unique:
  assumes "t \<in> set suffix_tokens" and "t' \<in> set suffix_tokens"
    and "suffix t u" and "suffix t' u"
  shows "t = t'"
proof -
  have pairs: "\<forall>a\<in>set suffix_tokens. \<forall>b\<in>set suffix_tokens. suffix a b \<longrightarrow> a = b"
    by code_simp
  from assms(3,4) have "suffix t t' \<or> suffix t' t" by (rule suffix_same_cases)
  with assms(1,2) pairs show ?thesis by blast
qed

lemma find_unique:
  "x0 \<in> set xs \<Longrightarrow> P x0 \<Longrightarrow> \<forall>x\<in>set xs. P x \<longrightarrow> x = x0 \<Longrightarrow> find P xs = Some x0"
proof (induction xs)
  case Nil
  then show ?case by simp
next
  case (Cons a xs)
  show ?case
  proof (cases "P a")
    case True
    with Cons.prems(3) have "a = x0" by simp
    with True show ?thesis by simp
  next
    case False
    with Cons.prems have "x0 \<in> set xs" by auto
    moreover from Cons.prems(3) have "\<forall>x\<in>set xs. P x \<longrightarrow> x = x0" by simp
    ultimately have "find P xs = Some x0" using Cons.prems(2) by (intro Cons.IH)
    with False show ?thesis by simp
  qed
qed

lemma set_suffixes_longest_first: "set suffixes_longest_first = set suffix_tokens"
  by (auto simp: suffixes_longest_first_def suffix_tokens_def)

lemma suffix_tokens_nonempty: "t \<in> set suffix_tokens \<Longrightarrow> t \<noteq> []"
  by (auto simp: suffix_tokens_def)

lemma remove_suffixes_spec:
  assumes "\<forall>tok\<in>set suffix_tokens. occurs_only_at_end tok u"
  shows "remove_suffixes u = strip_suffix_spec u"
proof -
  have a: "\<forall>t\<in>set suffix_tokens. t \<noteq> [] \<and> occurs_only_at_end t u"
  proof
    fix t assume t: "t \<in> set suffix_tokens"
    then have "t \<noteq> []" by (rule suffix_tokens_nonempty)
    moreover from assms t have "occurs_only_at_end t u" by (rule bspec)
    ultimately show "t \<noteq> [] \<and> occurs_only_at_end t u" by (rule conjI)
  qed
  show ?thesis
  proof (cases "\<exists>t\<in>set suffix_tokens. suffix t u")
    case True
    then obtain t0 where t0: "t0 \<in> set suffix_tokens" "suffix t0 u" by (rule bexE)
    have uniq: "\<forall>t\<in>set suffix_tokens. suffix t u \<longrightarrow> t = t0"
    proof (intro ballI impI)
      fix t assume a1: "t \<in> set suffix_tokens" and a2: "suffix t u"
      show "t = t0" by (rule suffix_tokens_unique [OF a1 t0(1) a2 t0(2)])
    qed
    have d: "\<forall>t\<in>set suffix_tokens. t \<noteq> t0 \<longrightarrow> \<not> suffix t u"
    proof (intro ballI impI)
      fix t assume t: "t \<in> set suffix_tokens" and ne: "t \<noteq> t0"
      show "\<not> suffix t u"
      proof
        assume "suffix t u"
        with t have "t = t0" using uniq by blast
        with ne show False by simp
      qed
    qed
    have "foldl (\<lambda>a t. str_replace t [] a) u suffix_tokens = take (length u - length t0) u"
      using a t0 d by (rule delete_all_unique_suffix)
    then have r: "remove_suffixes u = take (length u - length t0) u"
      by (simp only: remove_suffixes_foldl)
    have "find (\<lambda>tok. suffix tok u) suffixes_longest_first = Some t0"
    proof (rule find_unique)
      show "t0 \<in> set suffixes_longest_first"
        using t0(1) by (simp only: set_suffixes_longest_first)
      show "suffix t0 u" by (rule t0(2))
      show "\<forall>x\<in>set suffixes_longest_first. suffix x u \<longrightarrow> x = t0"
        using uniq by (simp only: set_suffixes_longest_first)
    qed
    then have "strip_suffix_spec u = take (length u - length t0) u"
      by (simp add: strip_suffix_spec_def)
    with r show ?thesis by simp
  next
    case False
    then have n: "\<forall>t\<in>set suffix_tokens. \<not> suffix t u" by blast
    have "foldl (\<lambda>a t. str_replace t [] a) u suffix_tokens = u"
      using a n by (rule delete_all_no_suffix)
    then have r: "remove_suffixes u = u" by (simp only: remove_suffixes_foldl)
    from n have "find (\<lambda>tok. suffix tok u) suffixes_longest_first = None"
      by (simp add: find_None_iff set_suffixes_longest_first)
    then have "strip_suffix_spec u = u" by (simp add: strip_suffix_spec_def)
    with r show ?thesis by simp
  qed
qed

subsection \<open>Punctuation\<close>

lemma punct_chain:
  "concat (map (\<lambda>x. if x = CHR ''-'' then '' '' else [x])
      (concat (map (\<lambda>x. if x = CHR '','' then [] else [x])
        (concat (map (\<lambda>x. if x = CHR ''.'' then [] else [x]) s)))))
   = concat (map punct_removed s)"
  by (induction s) (simp_all add: punct_removed_def)

lemma remove_punctuation_chars: "remove_punctuation s = concat (map punct_removed s)"
  unfolding remove_punctuation_def str_replace_single by (rule punct_chain)

subsection \<open>Collapsing and trimming whitespace\<close>

lemma str_strip_space_Cons: "isspace a \<Longrightarrow> str_strip (a # y) = str_strip y"
  by (simp add: str_strip_def)

lemma str_strip_no_lead:
  "y = [] \<or> \<not> isspace (hd y) \<Longrightarrow> str_strip y = rev (dropWhile isspace (rev y))"
proof -
  assume "y = [] \<or> \<not> isspace (hd y)"
  then have "dropWhile isspace y = y" by (simp only: dropWhile_eq_self_iff)
  then show ?thesis by (simp only: str_strip_def)
qed

lemma lead_dropWhile: "dropWhile isspace z = [] \<or> \<not> isspace (hd (dropWhile isspace z))"
  using hd_dropWhile [of isspace z] by blast

lemma collapse_ws_lead:
  "z = [] \<or> \<not> isspace (hd z) \<Longrightarrow> collapse_ws z = [] \<or> \<not> isspace (hd (collapse_ws z))"
  by (cases z) simp_all

lemma strip_collapse_dropWhile:
  "str_strip (collapse_ws (dropWhile isspace x)) = str_strip (collapse_ws x)"
proof (cases x)
  case Nil
  then show ?thesis by simp
next
  case (Cons a xs)
  show ?thesis
  proof (cases "isspace a")
    case True
    have "str_strip (collapse_ws (a # xs))
        = str_strip (CHR '' '' # collapse_ws (dropWhile isspace xs))"
      using True by simp
    also have "\<dots> = str_strip (collapse_ws (dropWhile isspace xs))"
      by (rule str_strip_space_Cons) (rule isspace_space)
    finally show ?thesis using True Cons by simp
  next
    case False
    with Cons show ?thesis by simp
  qed
qed

lemma collapse_ws_word_append:
  "\<forall>c\<in>set w. \<not> isspace c \<Longrightarrow> collapse_ws (w @ r) = w @ collapse_ws r"
  by (induction w) simp_all

lemma split_ws_Nil_iff: "str_split_ws r = [] \<longleftrightarrow> (\<forall>c\<in>set r. isspace c)"
  by (induction r) simp_all

lemma collapse_ws_all_space:
  assumes "\<forall>c\<in>set r. isspace c"
  shows "\<forall>c\<in>set (collapse_ws r). isspace c"
proof (cases r)
  case Nil
  then show ?thesis by simp
next
  case (Cons a xs)
  with assms have a: "isspace a" and d: "dropWhile isspace xs = []" by simp_all
  have "collapse_ws (a # xs) = CHR '' '' # collapse_ws []"
    by (simp only: collapse_ws.simps a d if_True)
  with Cons show ?thesis by (simp add: isspace_space)
qed

lemma rstrip_word_spaces:
  assumes "w \<noteq> []" and "\<forall>c\<in>set w. \<not> isspace c" and "\<forall>c\<in>set z. isspace c"
  shows "rev (dropWhile isspace (rev (w @ z))) = w"
proof -
  from assms(3) have "dropWhile isspace (rev z @ rev w) = dropWhile isspace (rev w)"
    by (intro dropWhile_append2) simp
  moreover have "dropWhile isspace (rev w) = rev w"
  proof -
    from assms(1) have "rev w \<noteq> []" by simp
    then have "hd (rev w) \<in> set (rev w)" by (rule hd_in_set)
    with assms(2) have "\<not> isspace (hd (rev w))" by simp
    then show ?thesis by (simp only: dropWhile_eq_self_iff) simp
  qed
  ultimately show ?thesis by simp
qed

lemma rstrip_append:
  assumes "dropWhile isspace (rev y) \<noteq> []"
  shows "rev (dropWhile isspace (rev (x @ y))) = x @ rev (dropWhile isspace (rev y))"
proof -
  from assms obtain c where "c \<in> set (rev y)" and "\<not> isspace c"
    by (auto simp: dropWhile_eq_Nil_conv)
  then have "dropWhile isspace (rev y @ rev x) = dropWhile isspace (rev y) @ rev x"
    by (rule dropWhile_append1)
  then show ?thesis by simp
qed

lemma str_join_nonempty: "v \<noteq> [] \<Longrightarrow> str_join sep (v # vs) \<noteq> []"
  by (cases vs) simp_all

lemma join_split_collapse:
  "str_join '' '' (str_split_ws x) = str_strip (collapse_ws x)"
proof (induction x rule: str_split_ws.induct)
  case 1
  show ?case by (simp add: str_strip_def)
next
  case (2 c cs)
  show ?case
  proof (cases "isspace c")
    case True
    then have "str_join '' '' (str_split_ws (c # cs)) = str_join '' '' (str_split_ws cs)"
      by simp
    also have "\<dots> = str_strip (collapse_ws cs)" using 2(1) True by simp
    also have "\<dots> = str_strip (collapse_ws (dropWhile isspace cs))"
      by (simp only: strip_collapse_dropWhile)
    also have "\<dots> = str_strip (CHR '' '' # collapse_ws (dropWhile isspace cs))"
      by (simp only: str_strip_space_Cons [OF isspace_space])
    also have "\<dots> = str_strip (collapse_ws (c # cs))" using True by simp
    finally show ?thesis .
  next
    case False
    define w where "w = c # takeWhile (\<lambda>x. \<not> isspace x) cs"
    define r where "r = dropWhile (\<lambda>x. \<not> isspace x) cs"
    have ccs: "c # cs = w @ r" by (simp add: w_def r_def)
    have wne: "w \<noteq> []" by (simp add: w_def)
    have wns: "\<forall>x\<in>set w. \<not> isspace x"
    proof
      fix x assume "x \<in> set w"
      then have "x = c \<or> x \<in> set (takeWhile (\<lambda>x. \<not> isspace x) cs)" by (simp add: w_def)
      then show "\<not> isspace x" using False set_takeWhileD by fastforce
    qed
    have hdw: "\<not> isspace (hd (w @ collapse_ws r))" using False by (simp add: w_def)
    have split: "str_split_ws (c # cs) = w # str_split_ws r"
      using False by (simp add: w_def r_def)
    have IH: "str_join '' '' (str_split_ws r) = str_strip (collapse_ws r)"
      using 2(2) False by (simp add: r_def)
    have "str_strip (collapse_ws (c # cs)) = str_strip (w @ collapse_ws r)"
      by (simp only: ccs collapse_ws_word_append [OF wns])
    also have "\<dots> = rev (dropWhile isspace (rev (w @ collapse_ws r)))"
      using hdw by (intro str_strip_no_lead) blast
    finally have R: "str_strip (collapse_ws (c # cs))
        = rev (dropWhile isspace (rev (w @ collapse_ws r)))" .
    show ?thesis
    proof (cases "str_split_ws r")
      case Nil
      then have "\<forall>x\<in>set r. isspace x" by (simp only: split_ws_Nil_iff)
      then have "\<forall>x\<in>set (collapse_ws r). isspace x" by (rule collapse_ws_all_space)
      with wne wns have "rev (dropWhile isspace (rev (w @ collapse_ws r))) = w"
        by (rule rstrip_word_spaces)
      with R have "str_strip (collapse_ws (c # cs)) = w" by simp
      moreover have "str_join '' '' (str_split_ws (c # cs)) = w"
        by (simp only: split Nil str_join.simps)
      ultimately show ?thesis by simp
    next
      case (Cons v vs)
      then have "v \<in> set (str_split_ws r)" by simp
      then have "v \<noteq> []" using split_ws_word by blast
      then have jne: "str_join '' '' (v # vs) \<noteq> []" by (rule str_join_nonempty)
      from Cons have rne: "r \<noteq> []" by auto
      then obtain a r' where r: "r = a # r'" by (cases r) auto
      have "\<not> \<not> isspace (hd r)"
        using hd_dropWhile [of "\<lambda>x. \<not> isspace x" cs] rne unfolding r_def by blast
      then have a: "isspace a" using r by simp
      define y where "y = collapse_ws (dropWhile isspace r')"
      have cr: "collapse_ws r = CHR '' '' # y"
        by (simp only: r y_def collapse_ws.simps a if_True)
      have ylead: "y = [] \<or> \<not> isspace (hd y)"
        unfolding y_def by (rule collapse_ws_lead) (rule lead_dropWhile)
      have "str_strip (collapse_ws r) = str_strip y"
        by (simp only: cr str_strip_space_Cons [OF isspace_space])
      also have "\<dots> = rev (dropWhile isspace (rev y))"
        using ylead by (rule str_strip_no_lead)
      finally have sy: "str_strip (collapse_ws r) = rev (dropWhile isspace (rev y))" .
      with IH Cons have jy: "str_join '' '' (v # vs) = rev (dropWhile isspace (rev y))"
        by simp
      with jne have "dropWhile isspace (rev y) \<noteq> []" by auto
      then have "rev (dropWhile isspace (rev ((w @ '' '') @ y)))
          = (w @ '' '') @ rev (dropWhile isspace (rev y))"
        by (rule rstrip_append)
      then have "rev (dropWhile isspace (rev (w @ collapse_ws r)))
          = w @ '' '' @ str_join '' '' (v # vs)"
        by (simp add: cr jy)
      with R have "str_strip (collapse_ws (c # cs)) = w @ '' '' @ str_join '' '' (v # vs)"
        by simp
      moreover have "str_join '' '' (str_split_ws (c # cs)) = w @ '' '' @ str_join '' '' (v # vs)"
        by (simp only: split Cons str_join.simps)
      ultimately show ?thesis by simp
    qed
  qed
qed

text \<open>
  Claim C2, as amended. The claim as stated has every period, comma and hyphen replaced
  by a space; the code deletes periods and commas and replaces only hyphens by a space,
  so \<^verbatim>\<open>a.b\<close> becomes \<^verbatim>\<open>ab\<close>, not \<^verbatim>\<open>a b\<close>. What holds: for
  every name in whose lower-cased form each suffix token occurs at the very end or not
  at all, \<open>normalize_name\<close> computes what the steps of the specification compute
  (lower-case, strip the suffix at the end, punctuation, collapse whitespace, trim) when
  periods and commas are deleted and hyphens become spaces. Occurrences of a token
  inside the name are left out of the statement.
\<close>

theorem normalize_name_steps:
  assumes "\<forall>tok\<in>set suffix_tokens. occurs_only_at_end tok (str_lower s)"
  shows "normalize_name (Some s) = spec_normalize punct_removed s"
proof -
  have "normalize_name (Some s)
      = str_join '' '' (str_split_ws (remove_punctuation (remove_suffixes (str_lower s))))"
    by (rule normalize_name_stages)
  also have "\<dots> = str_strip (collapse_ws (remove_punctuation (remove_suffixes (str_lower s))))"
    by (rule join_split_collapse)
  also have "\<dots> = str_strip (collapse_ws
      (concat (map punct_removed (strip_suffix_spec (str_lower s)))))"
    by (simp only: remove_punctuation_chars remove_suffixes_spec [OF assms])
  finally show ?thesis by (simp only: spec_normalize_def)
qed

text \<open>The hypothesis holds at \<^verbatim>\<open>Verde-Nova, S.A.  Ltd\<close>, whose only token is
  the trailing \<^verbatim>\<open> ltd\<close>.\<close>

theorem normalize_name_steps_witness:
  "normalize_name (Some ''Verde-Nova, S.A.  Ltd'')
     = spec_normalize punct_removed ''Verde-Nova, S.A.  Ltd''
   \<and> spec_normalize punct_removed ''Verde-Nova, S.A.  Ltd'' = ''verde nova sa''"
proof -
  have h: "\<forall>tok\<in>set suffix_tokens.
      occurs_only_at_end tok (str_lower ''Verde-Nova, S.A.  Ltd'')"
    by code_simp
  have "spec_normalize punct_removed ''Verde-Nova, S.A.  Ltd'' = ''verde nova sa''"
    by code_simp
  with normalize_name_steps [OF h] show ?thesis by simp
qed

text \<open>The claim as stated fails at \<^verbatim>\<open>a.b\<close>: the steps of the specification
  give \<^verbatim>\<open>a b\<close>, the code gives \<^verbatim>\<open>ab\<close>.\<close>

theorem normalize_name_steps_counterexample:
  "normalize_name (Some ''a.b'') \<noteq> spec_normalize punct_as_space ''a.b''
   \<and> normalize_name (Some ''a.b'') = ''ab''"
  by code_simp

section \<open>Claims about create\_reverse\_lookup\<close>

lemma map_of_dict_set: "map_of (dict_set k v m) = (map_of m)(k \<mapsto> v)"
proof (induction m)
  case Nil
  show ?case by simp
next
  case (Cons p m)
  obtain k' v' where p: "p = (k', v')" by (cases p)
  show ?case
  proof (cases "k' = k")
    case True
    with p show ?thesis by (simp add: fun_eq_iff)
  next
    case False
    with p Cons show ?thesis by (simp add: fun_eq_iff)
  qed
qed

lemma map_of_variants_loop:
  "map_of (variants_loop i vs rm) k
     = (if k \<noteq> [] \<and> k \<in> set vs then Some i else map_of rm k)"
proof (induction vs arbitrary: rm)
  case Nil
  show ?case by simp
next
  case (Cons v vs)
  show ?case
  proof (cases "v \<noteq> []")
    case True
    then have "map_of (variants_loop i (v # vs) rm) k
        = (if k \<noteq> [] \<and> k \<in> set vs then Some i else map_of (dict_set v i rm) k)"
      using Cons [of "dict_set v i rm"] by simp
    then show ?thesis using True by (simp add: map_of_dict_set)
  next
    case False
    then have "map_of (variants_loop i (v # vs) rm) k
        = (if k \<noteq> [] \<and> k \<in> set vs then Some i else map_of rm k)"
      using Cons [of rm] by simp
    then show ?thesis using False by auto
  qed
qed

lemma map_of_entity_step:
  "map_of (variants_loop i (normalized_variants e)
             (dict_set (normalize_name (canonical_name e)) i rm)) k
     = (if writes_key e k then Some i else map_of rm k)"
  by (simp add: map_of_variants_loop map_of_dict_set writes_key_def)

lemma find_append:
  "find P (xs @ ys) = (case find P xs of None \<Rightarrow> find P ys | Some x \<Rightarrow> Some x)"
  by (induction xs) simp_all

lemma map_of_reverse_loop:
  "map_of (reverse_loop em rm) k
     = (case find (\<lambda>p. writes_key (snd p) k) (rev em) of
          None \<Rightarrow> map_of rm k
        | Some p \<Rightarrow> Some (fst p))"
proof (induction em arbitrary: rm)
  case Nil
  show ?case by simp
next
  case (Cons p em)
  obtain i e where p: "p = (i, e)" by (cases p)
  define rm' where "rm' = variants_loop i (normalized_variants e)
      (dict_set (normalize_name (canonical_name e)) i rm)"
  have step: "map_of rm' k = (if writes_key e k then Some i else map_of rm k)"
    unfolding rm'_def by (rule map_of_entity_step)
  have "reverse_loop (p # em) rm = reverse_loop em rm'"
    by (simp add: p rm'_def)
  then have "map_of (reverse_loop (p # em) rm) k
      = (case find (\<lambda>p. writes_key (snd p) k) (rev em) of
           None \<Rightarrow> map_of rm' k
         | Some p \<Rightarrow> Some (fst p))"
    using Cons [of rm'] by simp
  then show ?case
    by (simp add: find_append step p split: option.split)
qed

lemma map_of_create_reverse_lookup:
  "map_of (create_reverse_lookup em) k
     = map_option fst (find (\<lambda>p. writes_key (snd p) k) (rev em))"
  by (simp add: create_reverse_lookup_def map_of_reverse_loop split: option.split)

text \<open>
  Claim C4, as amended. The claim as stated covers every variant of every entity; the
  loop skips a variant that is the empty string (\<^verbatim>\<open>if variant:\<close>), so an
  entity whose alternate name normalizes to the empty string has the empty variant
  without the lookup holding that key. What holds: for every entity \<open>e\<close> with
  identifier \<open>i\<close> in the entity map and every key \<open>v\<close> that the loop writes for
  \<open>e\<close> (a non-empty variant of \<open>e\<close>, or its normalized canonical name), the reverse
  lookup maps \<open>v\<close> to \<open>i\<close> unless an entity processed later also writes \<open>v\<close>; applied
  to the last entity that writes \<open>v\<close>, this is "last write wins".
\<close>

theorem reverse_lookup_last_write:
  assumes "writes_key e v" and "\<forall>p\<in>set post. \<not> writes_key (snd p) v"
  shows "map_of (create_reverse_lookup (pre @ (i, e) # post)) v = Some i"
proof -
  have "find (\<lambda>p. writes_key (snd p) v) (rev post) = None"
  proof -
    from assms(2) have "\<not> (\<exists>x. x \<in> set (rev post) \<and> writes_key (snd x) v)"
      unfolding set_rev by blast
    then show ?thesis
      using find_None_iff [of "\<lambda>p. writes_key (snd p) v" "rev post"] by blast
  qed
  then have "find (\<lambda>p. writes_key (snd p) v) (rev (pre @ (i, e) # post)) = Some (i, e)"
    using assms(1) by (simp add: find_append)
  then show ?thesis by (simp add: map_of_create_reverse_lookup)
qed

text \<open>Two entities share the variant \<^verbatim>\<open>acme corp\<close>; the later one wins.\<close>

theorem reverse_lookup_last_write_witness:
  "map_of (create_reverse_lookup
      ([(Some ''D1'', \<lparr>canonical_name = Some ''Acme Ltd'', alternate_names = [Some ''Acme Corp''],
                      normalized_variants = [''acme'', ''acme corp'']\<rparr>)]
       @ (Some ''D2'', \<lparr>canonical_name = Some ''Zenith'', alternate_names = [Some ''ACME Corp''],
                        normalized_variants = [''zenith'', ''acme corp'']\<rparr>) # []))
     ''acme corp'' = Some (Some ''D2'')"
proof -
  have a: "writes_key \<lparr>canonical_name = Some ''Zenith'', alternate_names = [Some ''ACME Corp''],
                        normalized_variants = [''zenith'', ''acme corp'']\<rparr> ''acme corp''"
    by code_simp
  have b: "\<forall>p\<in>set ([] :: entity_map). \<not> writes_key (snd p) ''acme corp''"
    by simp
  show ?thesis by (rule reverse_lookup_last_write [OF a b])
qed

text \<open>The claim as stated fails for the entity map built from one record whose
  alternate name is a period: the empty string is among the variants and is no key of
  the reverse lookup.\<close>

theorem reverse_lookup_variant_counterexample:
  "build_entity_mapping
     \<lparr>columns = [''DeveloperID'', ''DeveloperName'', ''AlternateNames''],
      rows = [map_of [(''DeveloperID'', ''D1''), (''DeveloperName'', ''Acme''),
                      (''AlternateNames'', ''.'')]]\<rparr>
     ''DeveloperID'' ''DeveloperName'' (Some ''AlternateNames'')
   = Inr [(Some ''D1'', \<lparr>canonical_name = Some ''Acme'', alternate_names = [Some ''.''],
                          normalized_variants = [''acme'', []]\<rparr>)]
   \<and> map_of (create_reverse_lookup
        [(Some ''D1'', \<lparr>canonical_name = Some ''Acme'', alternate_names = [Some ''.''],
                        normalized_variants = [''acme'', []]\<rparr>)]) [] = None"
  by code_simp

text \<open>
  Claim C10. The normalized canonical name of every entity is a key of the reverse
  lookup, whatever it is; the key that is the empty string is mapped to the identifier
  of the last entity whose canonical name normalizes to the empty string, and is absent
  when there is no such entity, whether or not the empty string is among the variants
  of some entity.
\<close>

theorem reverse_lookup_canonical:
  "(\<forall>p\<in>set em. normalize_name (canonical_name (snd p)) \<in> fst ` set (create_reverse_lookup em))
   \<and> map_of (create_reverse_lookup em) []
       = map_option fst (find (\<lambda>p. normalize_name (canonical_name (snd p)) = []) (rev em))"
proof (intro conjI ballI)
  fix p assume p: "p \<in> set em"
  define k where "k = normalize_name (canonical_name (snd p))"
  have w: "writes_key (snd p) k" by (simp add: writes_key_def k_def)
  have "find (\<lambda>p. writes_key (snd p) k) (rev em) \<noteq> None"
  proof
    assume "find (\<lambda>p. writes_key (snd p) k) (rev em) = None"
    then have "\<not> (\<exists>x. x \<in> set (rev em) \<and> writes_key (snd x) k)"
      using find_None_iff [of "\<lambda>p. writes_key (snd p) k" "rev em"] by blast
    moreover from p have "p \<in> set (rev em)" unfolding set_rev .
    ultimately show False using w by blast
  qed
  then have "map_of (create_reverse_lookup em) k \<noteq> None"
    by (simp add: map_of_create_reverse_lookup)
  then show "normalize_name (canonical_name (snd p)) \<in> fst ` set (create_reverse_lookup em)"
    unfolding k_def by (simp add: map_of_eq_None_iff)
next
  have "\<And>e. writes_key e [] \<longleftrightarrow> normalize_name (canonical_name e) = []"
    by (simp add: writes_key_def)
  then show "map_of (create_reverse_lookup em) []
      = map_option fst (find (\<lambda>p. normalize_name (canonical_name (snd p)) = []) (rev em))"
    by (simp add: map_of_create_reverse_lookup)
qed

text \<open>Three investors: two canonical names normalize to the empty string, the third
  has the empty string among its variants only. The key of the empty string goes to the
  second.\<close>

theorem reverse_lookup_canonical_witness:
  "[] \<in> fst ` set (create_reverse_lookup
        [(Some ''I1'', \<lparr>canonical_name = Some ''.'', alternate_names = [],
                        normalized_variants = [[]]\<rparr>),
         (Some ''I2'', \<lparr>canonical_name = Some '' Capital'', alternate_names = [],
                        normalized_variants = [[]]\<rparr>),
         (Some ''I3'', \<lparr>canonical_name = Some ''NorthStar'', alternate_names = [Some ''-''],
                        normalized_variants = [''northstar'', []]\<rparr>)])
   \<and> map_of (create_reverse_lookup
        [(Some ''I1'', \<lparr>canonical_name = Some ''.'', alternate_names = [],
                        normalized_variants = [[]]\<rparr>),
         (Some ''I2'', \<lparr>canonical_name = Some '' Capital'', alternate_names = [],
                        normalized_variants = [[]]\<rparr>),
         (Some ''I3'', \<lparr>canonical_name = Some ''NorthStar'', alternate_names = [Some ''-''],
                        normalized_variants = [''northstar'', []]\<rparr>)]) []
       = Some (Some ''I2'')"
proof -
  define e1 :: entity where "e1 = \<lparr>canonical_name = Some ''.'', alternate_names = [],
      normalized_variants = [[]]\<rparr>"
  define em :: entity_map where "em =
        [(Some ''I1'', e1),
         (Some ''I2'', \<lparr>canonical_name = Some '' Capital'', alternate_names = [],
                        normalized_variants = [[]]\<rparr>),
         (Some ''I3'', \<lparr>canonical_name = Some ''NorthStar'', alternate_names = [Some ''-''],
                        normalized_variants = [''northstar'', []]\<rparr>)]"
  note canonical = reverse_lookup_canonical [of em]
  have p: "(Some ''I1'', e1) \<in> set em" by (simp add: em_def)
  have n: "normalize_name (canonical_name (snd (Some ''I1'', e1))) = []"
    unfolding e1_def by code_simp
  from canonical have "\<forall>p\<in>set em.
      normalize_name (canonical_name (snd p)) \<in> fst ` set (create_reverse_lookup em)"
    by (rule conjunct1)
  from bspec [OF this p] have k: "[] \<in> fst ` set (create_reverse_lookup em)"
    unfolding n .
  have f: "map_option fst (find (\<lambda>p. normalize_name (canonical_name (snd p)) = []) (rev em))
      = Some (Some ''I2'')"
    unfolding em_def e1_def by code_simp
  from canonical have "map_of (create_reverse_lookup em) []
      = map_option fst (find (\<lambda>p. normalize_name (canonical_name (snd p)) = []) (rev em))"
    by (rule conjunct2)
  then have v: "map_of (create_reverse_lookup em) [] = Some (Some ''I2'')"
    unfolding f .
  from k v show ?thesis unfolding em_def e1_def by (rule conjI)
qed

section \<open>Claims about build\_entity\_mapping\<close>


declare normalize_name.simps(2) [simp del]














section \<open>Claims about find\_entity\_in\_text\<close>








section \<open>Claims about find\_similar\_entities\<close>

lemma id2_loop_filter:
  assumes "i1 \<in> fst ` set em" and "set ids \<subseteq> fst ` set em"
  shows "id2_loop ratio em t i1 ids acc
     = Inr (acc @ filter (\<lambda>c. t \<le> similarity c) (map (pair_candidate ratio em i1) ids))"
  using assms(2)
proof (induction ids arbitrary: acc)
  case Nil
  show ?case by simp
next
  case (Cons i2 ids)
  from assms(1) obtain e1 where e1: "map_of em i1 = Some e1"
    by (metis map_of_eq_None_iff not_Some_eq)
  from Cons.prems have "i2 \<in> fst ` set em" by simp
  then obtain e2 where e2: "map_of em i2 = Some e2"
    by (metis map_of_eq_None_iff not_Some_eq)
  from Cons.prems have rest: "set ids \<subseteq> fst ` set em" by simp
  note IH = Cons.IH [OF rest]
  obtain mx best where nl:
    "names1_loop ratio (normalized_variants e1) (normalized_variants e2) (0, None) = (mx, best)"
    by (cases "names1_loop ratio (normalized_variants e1) (normalized_variants e2) (0, None)")
  have pc: "pair_candidate ratio em i1 i2
      = \<lparr>id1 = i1, entity1 = canonical_name e1, id2 = i2, entity2 = canonical_name e2,
         similarity = mx, matched_variants = best\<rparr>"
    by (simp add: pair_candidate_def e1 e2 nl Let_def)
  show ?case
  proof (cases "t \<le> mx")
    case True
    then show ?thesis by (simp add: e1 e2 nl IH pc)
  next
    case False
    then show ?thesis by (simp add: e1 e2 nl IH pc)
  qed
qed

lemma id1_loop_filter:
  assumes "set ids \<subseteq> fst ` set em"
  shows "id1_loop ratio em t ids acc
     = Inr (acc @ filter (\<lambda>c. t \<le> similarity c) (all_pairs ratio em ids))"
  using assms
proof (induction ids arbitrary: acc)
  case Nil
  show ?case by simp
next
  case (Cons i1 ids)
  from Cons.prems have i1: "i1 \<in> fst ` set em" and rest: "set ids \<subseteq> fst ` set em" by simp_all
  show ?case
    by (simp add: id2_loop_filter [OF i1 rest] Cons.IH [OF rest])
qed

lemma find_similar_entities_filter:
  "find_similar_entities ratio em t
     = Inr (filter (\<lambda>c. t \<le> similarity c) (all_pairs ratio em (map fst em)))"
  by (simp add: find_similar_entities_def id1_loop_filter)

text \<open>
  Claim C9. For every similarity function, entity map and thresholds \<open>t1 \<le> t2\<close>, the
  detector returns a list at both thresholds (it never fails); the candidates reported
  at \<open>t2\<close> are those reported at \<open>t1\<close> whose similarity is at least \<open>t2\<close>, so they
  are a subset and no more in number; and the candidates reported at a threshold are
  exactly the candidates of all pairs whose recorded maximum similarity is at least the
  threshold.
\<close>

theorem find_similar_entities_monotone:
  assumes "t1 \<le> t2"
  shows "\<exists>r1 r2. find_similar_entities ratio em t1 = Inr r1
     \<and> find_similar_entities ratio em t2 = Inr r2
     \<and> r2 = filter (\<lambda>c. t2 \<le> similarity c) r1
     \<and> set r2 \<subseteq> set r1 \<and> length r2 \<le> length r1
     \<and> r1 = filter (\<lambda>c. t1 \<le> similarity c) (all_pairs ratio em (map fst em))"
proof -
  define cs where "cs = all_pairs ratio em (map fst em)"
  define r1 where "r1 = filter (\<lambda>c. t1 \<le> similarity c) cs"
  define r2 where "r2 = filter (\<lambda>c. t2 \<le> similarity c) cs"
  have f1: "find_similar_entities ratio em t1 = Inr r1"
    unfolding r1_def cs_def by (rule find_similar_entities_filter)
  have f2: "find_similar_entities ratio em t2 = Inr r2"
    unfolding r2_def cs_def by (rule find_similar_entities_filter)
  have eq: "r2 = filter (\<lambda>c. t2 \<le> similarity c) r1"
    unfolding r1_def r2_def filter_filter
    by (rule filter_cong) (use assms in auto)
  have sub: "set r2 \<subseteq> set r1" unfolding eq by simp
  have len: "length r2 \<le> length r1" unfolding eq by (rule length_filter_le)
  from f1 f2 eq sub len r1_def cs_def show ?thesis by blast
qed

text \<open>Three developers and the thresholds 30 and 85, with a similarity that scores
  equal strings 100 and different strings 40.\<close>

theorem find_similar_entities_monotone_witness:
  "(30::real) \<le> 85
   \<and> (\<exists>r1 r2.
        find_similar_entities (\<lambda>a b. if a = b then 100 else 40)
          [(Some ''D1'', \<lparr>canonical_name = Some ''VerdeNova Solutions'', alternate_names = [],
                         normalized_variants = [''verdenova'']\<rparr>),
           (Some ''D2'', \<lparr>canonical_name = Some ''Verde Nova Agro'',
                         alternate_names = [Some ''VerdeNova''],
                         normalized_variants = [''verde nova'', ''verdenova'']\<rparr>),
           (Some ''D3'', \<lparr>canonical_name = Some ''Zenith'', alternate_names = [],
                         normalized_variants = [''zenith'']\<rparr>)] 30 = Inr r1
      \<and> find_similar_entities (\<lambda>a b. if a = b then 100 else 40)
          [(Some ''D1'', \<lparr>canonical_name = Some ''VerdeNova Solutions'', alternate_names = [],
                         normalized_variants = [''verdenova'']\<rparr>),
           (Some ''D2'', \<lparr>canonical_name = Some ''Verde Nova Agro'',
                         alternate_names = [Some ''VerdeNova''],
                         normalized_variants = [''verde nova'', ''verdenova'']\<rparr>),
           (Some ''D3'', \<lparr>canonical_name = Some ''Zenith'', alternate_names = [],
                         normalized_variants = [''zenith'']\<rparr>)] 85 = Inr r2
      \<and> set r2 \<subseteq> set r1 \<and> length r2 \<le> length r1)"
proof -
  have h: "(30::real) \<le> 85" by simp
  from find_similar_entities_monotone [OF h] show ?thesis using h by blast
qed

text \<open>At the threshold 85 only the pair scoring 100 is reported; the pairs scoring 40
  are not.\<close>

lemma find_similar_entities_example:
  "find_similar_entities (\<lambda>a b. if a = b then 100 else 40)
          [(Some ''D1'', \<lparr>canonical_name = Some ''VerdeNova Solutions'', alternate_names = [],
                         normalized_variants = [''verdenova'']\<rparr>),
           (Some ''D2'', \<lparr>canonical_name = Some ''Verde Nova Agro'',
                         alternate_names = [Some ''VerdeNova''],
                         normalized_variants = [''verde nova'', ''verdenova'']\<rparr>),
           (Some ''D3'', \<lparr>canonical_name = Some ''Zenith'', alternate_names = [],
                         normalized_variants = [''zenith'']\<rparr>)] 85
   = Inr [\<lparr>id1 = Some ''D1'', entity1 = Some ''VerdeNova Solutions'',
           id2 = Some ''D2'', entity2 = Some ''Verde Nova Agro'',
           similarity = 100, matched_variants = Some (''verdenova'', ''verdenova'')\<rparr>]"
  by (simp add: find_similar_entities_def)

section \<open>Claims about create\_relationships\_table\<close>




















end
